theory Spec2Isabelle
  imports Main "HOL-Library.Char_ord" "HOL-Library.List_Lexorder"
begin

section \<open>Strings\<close>

text \<open>
  A Python \<open>str\<close> is a sequence of code points. The model uses \<open>string\<close>, whose
  characters are the 256 code points of Latin-1 (\<open>of_char\<close> gives the code point), so
  every definition below is the behaviour of the Python operation on strings whose code
  points are below 256. In that range the decimal digits recognised by \<open>\d\<close> are
  \<open>0\<close> to \<open>9\<close> and \<open>str.isspace\<close> holds for twelve code points.
\<close>

definition isspace :: "char \<Rightarrow> bool" where
  "isspace c = (of_char c \<in> set [9, 10, 11, 12, 13, 28, 29, 30, 31, 32, 133, 160 :: nat])"

definition isdigit :: "char \<Rightarrow> bool" where
  "isdigit c = (c \<in> set ''0123456789'')"

text \<open>\<open>s.lstrip()\<close>, \<open>s.rstrip()\<close>, \<open>s.strip()\<close> and \<open>s.lstrip(chars)\<close>.\<close>

definition lstrip :: "string \<Rightarrow> string" where
  "lstrip s = dropWhile isspace s"

definition rstrip :: "string \<Rightarrow> string" where
  "rstrip s = rev (dropWhile isspace (rev s))"

definition strip :: "string \<Rightarrow> string" where
  "strip s = rstrip (lstrip s)"

definition lstrip_chars :: "string \<Rightarrow> string \<Rightarrow> string" where
  "lstrip_chars chars s = dropWhile (\<lambda>c. c \<in> set chars) s"

text \<open>\<open>s.split(sep)\<close> for a separator of one character, and \<open>sep.join(xs)\<close>.\<close>

fun split_on :: "char \<Rightarrow> string \<Rightarrow> string list" where
  "split_on sep [] = [[]]"
| "split_on sep (c # cs) =
     (if c = sep then [] # split_on sep cs
      else (case split_on sep cs of
              [] \<Rightarrow> [[c]]
            | w # ws \<Rightarrow> (c # w) # ws))"

fun join :: "string \<Rightarrow> string list \<Rightarrow> string" where
  "join sep [] = []"
| "join sep [x] = x"
| "join sep (x # y # ys) = x @ sep @ join sep (y # ys)"

text \<open>\<open>str.lower\<close> on the code points below 256.\<close>

definition lower_char :: "char \<Rightarrow> char" where
  "lower_char c =
     (let n = of_char c :: nat
      in if (65 \<le> n \<and> n \<le> 90) \<or> (192 \<le> n \<and> n \<le> 222 \<and> n \<noteq> 215) then char_of (n + 32) else c)"

definition lower :: "string \<Rightarrow> string" where
  "lower s = map lower_char s"

section \<open>Regular expressions\<close>

text \<open>
  The three patterns of the program use literals, \<open>.\<close> (any character but a newline,
  since no pattern sets DOTALL), \<open>\d\<close>, a character set, concatenation, alternation
  and repetition. \<open>Fail\<close> matches nothing; it only arises in derivatives.
\<close>

datatype regex =
    Fail
  | Eps
  | Lit char
  | Dot
  | Digit
  | Class "char list"
  | Cat regex regex
  | Alt regex regex
  | Star regex

definition many1 :: "regex \<Rightarrow> regex" where
  "many1 r = Cat r (Star r)"

fun rep :: "nat \<Rightarrow> regex \<Rightarrow> regex" where
  "rep 0 r = Eps"
| "rep (Suc n) r = Cat r (rep n r)"

definition seq :: "regex list \<Rightarrow> regex" where
  "seq rs = foldr Cat rs Eps"

definition str :: "string \<Rightarrow> regex" where
  "str s = seq (map Lit s)"

text \<open>
  \<open>Pattern.fullmatch\<close> succeeds when some way of matching the pattern consumes the
  whole string; the backtracking matcher tries them all, so for patterns without
  back-references this is membership in the pattern's language. It is computed here with
  derivatives. Under \<open>fullmatch\<close> the anchors \<open>^\<close> at the start and \<open>$\<close> at the end
  of a pattern hold at the only positions where they are tried, so they are left out of
  the translated patterns.
\<close>

fun nullable :: "regex \<Rightarrow> bool" where
  "nullable Fail = False"
| "nullable Eps = True"
| "nullable (Lit c) = False"
| "nullable Dot = False"
| "nullable Digit = False"
| "nullable (Class cs) = False"
| "nullable (Cat r s) = (nullable r \<and> nullable s)"
| "nullable (Alt r s) = (nullable r \<or> nullable s)"
| "nullable (Star r) = True"

fun deriv :: "char \<Rightarrow> regex \<Rightarrow> regex" where
  "deriv a Fail = Fail"
| "deriv a Eps = Fail"
| "deriv a (Lit c) = (if a = c then Eps else Fail)"
| "deriv a Dot = (if a = CHR 0x0A then Fail else Eps)"
| "deriv a Digit = (if isdigit a then Eps else Fail)"
| "deriv a (Class cs) = (if a \<in> set cs then Eps else Fail)"
| "deriv a (Cat r s) =
     (if nullable r then Alt (Cat (deriv a r) s) (deriv a s) else Cat (deriv a r) s)"
| "deriv a (Alt r s) = Alt (deriv a r) (deriv a s)"
| "deriv a (Star r) = Cat (deriv a r) (Star r)"

fun fullmatch :: "regex \<Rightarrow> string \<Rightarrow> bool" where
  "fullmatch r [] = nullable r"
| "fullmatch r (a # w) = fullmatch (deriv a r) w"

text \<open>The language of a pattern, used to reason about \<open>fullmatch\<close>.\<close>

definition conc :: "string set \<Rightarrow> string set \<Rightarrow> string set" where
  "conc A B = {u @ v | u v. u \<in> A \<and> v \<in> B}"

inductive_set star :: "string set \<Rightarrow> string set" for A :: "string set" where
  star_nil: "[] \<in> star A"
| star_app: "u \<in> A \<Longrightarrow> v \<in> star A \<Longrightarrow> u @ v \<in> star A"

fun lang :: "regex \<Rightarrow> string set" where
  "lang Fail = {}"
| "lang Eps = {[]}"
| "lang (Lit c) = {[c]}"
| "lang Dot = {[c] | c. c \<noteq> CHR 0x0A}"
| "lang Digit = {[c] | c. isdigit c}"
| "lang (Class cs) = {[c] | c. c \<in> set cs}"
| "lang (Cat r s) = conc (lang r) (lang s)"
| "lang (Alt r s) = lang r \<union> lang s"
| "lang (Star r) = star (lang r)"

section \<open>The program\<close>

text \<open>\<open>RE_GOOD_FN = re.compile(r"^.+ \(\d{4}\) \{t[mv]db-\d+\}$")\<close>\<close>

definition RE_GOOD_FN :: regex where
  "RE_GOOD_FN =
     seq [many1 Dot, str '' ('', rep 4 Digit, str '') {t'', Class ''mv'', str ''db-'',
          many1 Digit, str ''}'']"

text \<open>
  \<open>re.search\<close> and \<open>re.sub(pattern, "", s)\<close>. \<open>match_end r s\<close> is the length of
  the shortest prefix of \<open>s\<close> that \<open>r\<close> matches. \<open>re_sub_empty\<close> scans from the left,
  deletes a non-empty match where one starts and resumes after it, as \<open>sub\<close> does with
  an empty replacement. The only pattern it is used with matches words of six characters
  and nothing else, so there is never a choice between matches at one position.
\<close>

fun match_end :: "regex \<Rightarrow> string \<Rightarrow> nat option" where
  "match_end r [] = (if nullable r then Some 0 else None)"
| "match_end r (a # w) =
     (if nullable r then Some 0 else map_option Suc (match_end (deriv a r) w))"

fun re_search :: "regex \<Rightarrow> string \<Rightarrow> bool" where
  "re_search r [] = (match_end r [] \<noteq> None)"
| "re_search r (a # w) = (match_end r (a # w) \<noteq> None \<or> re_search r w)"

fun re_sub_empty :: "regex \<Rightarrow> string \<Rightarrow> string" where
  "re_sub_empty r [] = []"
| "re_sub_empty r (a # w) =
     (case match_end (deriv a r) w of
        Some k \<Rightarrow> re_sub_empty r (drop k w)
      | None \<Rightarrow> a # re_sub_empty r w)"

text \<open>
  A pattern of two groups \<open>(g1)(g2)\<close> under \<open>fullmatch\<close>, where the backtracking
  matcher tries the shorter first group first (the first group is a lazy \<open>.*?\<close> followed
  by a literal): the result is the length of group 1 in the match found.
\<close>

definition lazy_split :: "regex \<Rightarrow> regex \<Rightarrow> string \<Rightarrow> nat option" where
  "lazy_split g1 g2 s =
     find (\<lambda>k. fullmatch g1 (take k s) \<and> fullmatch g2 (drop k s)) [0..<Suc (length s)]"

subsection \<open>Search results and the canonical name\<close>

definition INVALID_FILENAME_CHARS :: "char set" where
  "INVALID_FILENAME_CHARS =
     {CHR ''<'', CHR ''>'', CHR '':'', CHR 0x22, CHR ''/'', CHR 0x5C, CHR ''|'', CHR ''?'',
      CHR ''*''}"

definition VIDEO_EXT :: "string set" where
  "VIDEO_EXT = {''.avi'', ''.mp4'', ''.mkv'', ''.m4v'', ''.ogm''}"

text \<open>\<open>datetime.date\<close>: the year is between 1 and 9999. The field \<open>id_\<close> of a search
  result is called \<open>ident\<close> here.\<close>

record date =
  year :: int
  month :: int
  day :: int

record SearchResult =
  title :: string
  ident :: int
  release :: date

text \<open>\<open>str(n)\<close> for an integer.\<close>

definition digit_char :: "nat \<Rightarrow> char" where
  "digit_char d = char_of (48 + d)"

function str_nat :: "nat \<Rightarrow> string" where
  "str_nat n = (if n < 10 then [digit_char n] else str_nat (n div 10) @ [digit_char (n mod 10)])"
  by pat_completeness auto
termination
  by (relation "measure id") auto

definition str_int :: "int \<Rightarrow> string" where
  "str_int i = (if i < 0 then CHR ''-'' # str_nat (nat (- i)) else str_nat (nat i))"

definition make_filename :: "SearchResult \<Rightarrow> string" where
  "make_filename result =
     (let clean_title = filter (\<lambda>c. c \<notin> INVALID_FILENAME_CHARS) (title result);
          clean_title = (if clean_title = [] then ''FIXME'' else clean_title);
          fn = clean_title @ '' ('' @ str_int (year (release result)) @ '')'';
          fn = fn @ '' {tmdb-'' @ str_int (ident result) @ ''}''
      in fn)"

subsection \<open>The prompt\<close>

datatype error = RuntimeError | EOFError | ValueError | PermissionError | OSError | BdbQuit

text \<open>
  \<open>int(s)\<close> for a string: white space around the number is skipped (for \<open>int\<close> that
  is eight of the code points below 256), then comes an optional sign and decimal digits,
  where single underscores may stand between digits. \<open>None\<close> is a \<open>ValueError\<close>.
\<close>

definition int_space :: "char \<Rightarrow> bool" where
  "int_space c = (of_char c \<in> set [9, 10, 11, 12, 13, 32, 133, 160 :: nat])"

definition digit_val :: "char \<Rightarrow> nat" where
  "digit_val c = of_char c - 48"

fun parse_digits :: "nat \<Rightarrow> string \<Rightarrow> nat option" where
  "parse_digits acc [] = Some acc"
| "parse_digits acc (c # cs) =
     (if isdigit c then parse_digits (10 * acc + digit_val c) cs
      else if c = CHR ''_'' then
        (case cs of
           [] \<Rightarrow> None
         | d # ds \<Rightarrow> if isdigit d then parse_digits (10 * acc + digit_val d) ds else None)
      else None)"

fun parse_nat :: "string \<Rightarrow> nat option" where
  "parse_nat [] = None"
| "parse_nat (c # cs) = (if isdigit c then parse_digits (digit_val c) cs else None)"

definition py_int :: "string \<Rightarrow> int option" where
  "py_int s =
     (case rev (dropWhile int_space (rev (dropWhile int_space s))) of
        [] \<Rightarrow> None
      | c # cs \<Rightarrow>
          if c = CHR ''-'' then map_option (\<lambda>n. - int n) (parse_nat cs)
          else if c = CHR ''+'' then map_option int (parse_nat cs)
          else map_option int (parse_nat (c # cs)))"

text \<open>
  On the line \<open>b\<close> or \<open>B\<close> the loop of \<open>ask_user\<close> calls \<open>breakpoint()\<close>: the
  debugger takes over and reads its commands from the same console. The debugger is
  outside the program and is a parameter: from the lines left on the console it gives
  either the exception that ends its session and the run (\<open>BdbQuit\<close>, after the
  command \<open>q\<close>), or the number of lines it reads before it resumes the program. A
  session in which the user changes the variables of the program is not covered.
\<close>

type_synonym debugger = "string list \<Rightarrow> error + nat"

definition breakpoint_hook :: "debugger \<Rightarrow> string \<Rightarrow> string list \<Rightarrow> error + string list" where
  "breakpoint_hook pdb val rest =
     (if lower val = ''b'' then
        (case pdb rest of Inl e \<Rightarrow> Inl e | Inr n \<Rightarrow> Inr (drop n rest))
      else Inr rest)"

text \<open>
  The \<open>while True\<close> loop of \<open>ask_user\<close>. The console is the list of the lines that
  \<open>input\<close> will return; at its end \<open>input\<close> raises \<open>EOFError\<close>. The function returns
  the selection and the lines not yet read. After the debugger has resumed the program,
  the line \<open>b\<close> goes through \<open>int\<close> like every other line. The branch
  \<open>elif val == ""\<close> of the source compares an integer with a string and is never taken.
\<close>

function ask_loop ::
  "debugger \<Rightarrow> SearchResult list \<Rightarrow> string list \<Rightarrow> error + SearchResult \<times> string list"
where
  "ask_loop pdb results [] = Inl EOFError"
| "ask_loop pdb results (val # rest) =
     (case breakpoint_hook pdb val rest of
        Inl e \<Rightarrow> Inl e
      | Inr rest1 \<Rightarrow>
          (case (if val = [] then Some 1 else py_int val) of
             None \<Rightarrow> ask_loop pdb results rest1
           | Some v \<Rightarrow>
               if v = 0 then Inl RuntimeError
               else if v < 0 \<or> v > int (length results) then ask_loop pdb results rest1
               else Inr (results ! nat (v - 1), rest1)))"
  by pat_completeness auto
termination
  by (relation "measure (\<lambda>(pdb, results, lines). length lines)")
    (auto simp: breakpoint_hook_def split: if_splits sum.splits)

definition ask_user ::
  "debugger \<Rightarrow> SearchResult list \<Rightarrow> string \<Rightarrow> bool \<Rightarrow> string list
     \<Rightarrow> error + SearchResult \<times> string list"
where
  "ask_user pdb results original_file confirm console =
     (if length results = 1 \<and> \<not> confirm then Inr (results ! 0, console)
      else ask_loop pdb results console)"

text \<open>
  \<open>search\<close>: the metadata service is a parameter \<open>tmdb\<close>, the function from the query
  to the results the service returns, already turned into \<open>SearchResult\<close>s.
\<close>

definition search :: "(string \<Rightarrow> SearchResult list) \<Rightarrow> string \<Rightarrow> string \<Rightarrow> SearchResult list option" where
  "search tmdb query original_file =
     (let results = tmdb query in if length results = 0 then None else Some results)"

subsection \<open>The search term\<close>

text \<open>
  \<open>year_re\<close> is compiled with \<open>re.VERBOSE\<close>, and so is the pattern of
  \<open>_strip_leading_info\<close>, \<open>^(.*? - )(.*-.*$)\<close>: in verbose mode white space in a pattern
  is ignored, so the blanks around the first hyphen are not part of the pattern and it is
  \<open>^(.*?-)(.*-.*$)\<close>. The functions \<open>_strip_year\<close>, \<open>_strip_leading_info\<close>,
  \<open>_strip_leading_number\<close> and \<open>_first_couple_words_from_dots\<close> lose their leading
  underscore here.
\<close>

definition year_re :: regex where
  "year_re =
     Alt (seq [Lit CHR ''['', rep 4 Digit, Lit CHR '']''])
         (seq [Lit CHR ''('', rep 4 Digit, Lit CHR '')''])"

definition strip_year :: "string \<Rightarrow> string" where
  "strip_year data = strip (re_sub_empty year_re data)"

definition patt_group1 :: regex where
  "patt_group1 = seq [Star Dot, Lit CHR ''-'']"

definition patt_group2 :: regex where
  "patt_group2 = seq [Star Dot, Lit CHR ''-'', Star Dot]"

definition strip_leading_info :: "string \<Rightarrow> string" where
  "strip_leading_info data =
     (case lazy_split patt_group1 patt_group2 data of
        Some k \<Rightarrow> strip (drop k data)
      | None \<Rightarrow> data)"

definition strip_leading_number :: "string \<Rightarrow> string" where
  "strip_leading_number data = lstrip_chars ''0123456789 -'' data"

definition first_couple_words_from_dots :: "string \<Rightarrow> string" where
  "first_couple_words_from_dots data =
     (let split_by_dot = split_on CHR ''.'' data
      in if length split_by_dot > 2 then join '' '' (take 2 split_by_dot) else data)"

definition get_search_term_from_fn :: "string \<Rightarrow> string" where
  "get_search_term_from_fn fn =
     (let best_guess = fn;
          best_guess = strip_year best_guess;
          best_guess = strip_leading_info best_guess;
          best_guess = strip_leading_number best_guess;
          best_guess = first_couple_words_from_dots best_guess
      in best_guess)"

subsection \<open>Paths\<close>

text \<open>
  \<open>pathlib.Path\<close> on a POSIX system, as in CPython 3.8 to 3.13: a path is its root
  (empty, \<open>/\<close> or \<open>//\<close>) and its components. Parsing a string drops empty components
  and the components \<open>.\<close>. \<open>str.rfind\<close> returns \<open>-1\<close> when the character is absent.
\<close>

record path =
  anchor :: string
  names :: "string list"

definition Path :: "string \<Rightarrow> path" where
  "Path s =
     \<lparr>anchor =
        (if take 1 s = ''/'' then (if take 2 s = ''//'' \<and> take 3 s \<noteq> ''///'' then ''//'' else ''/'')
         else []),
      names = filter (\<lambda>x. x \<noteq> [] \<and> x \<noteq> ''.'') (split_on CHR ''/'' s)\<rparr>"

definition rfind :: "char \<Rightarrow> string \<Rightarrow> int" where
  "rfind c s = (case find (\<lambda>i. s ! i = c) (rev [0..<length s]) of None \<Rightarrow> - 1 | Some i \<Rightarrow> int i)"

definition name :: "path \<Rightarrow> string" where
  "name p = (if names p = [] then [] else last (names p))"

definition suffix :: "path \<Rightarrow> string" where
  "suffix p =
     (let n = name p; i = rfind CHR ''.'' n
      in if 0 < i \<and> i < int (length n) - 1 then drop (nat i) n else [])"

definition stem :: "path \<Rightarrow> string" where
  "stem p =
     (let n = name p; i = rfind CHR ''.'' n
      in if 0 < i \<and> i < int (length n) - 1 then take (nat i) n else n)"

definition parent :: "path \<Rightarrow> path" where
  "parent p = p\<lparr>names := butlast (names p)\<rparr>"

text \<open>\<open>p / s\<close> for a string \<open>s\<close>: an absolute \<open>s\<close> replaces \<open>p\<close>.\<close>

definition joinpath :: "path \<Rightarrow> string \<Rightarrow> path" where
  "joinpath p s =
     (let q = Path s in if anchor q \<noteq> [] then q else p\<lparr>names := names p @ names q\<rparr>)"

definition with_name :: "path \<Rightarrow> string \<Rightarrow> error + path" where
  "with_name p n =
     (if name p = [] then Inl ValueError
      else if n = [] \<or> last n = CHR ''/'' \<or> anchor (Path n) \<noteq> [] \<or> length (names (Path n)) \<noteq> 1
        then Inl ValueError
      else Inr (p\<lparr>names := butlast (names p) @ [n]\<rparr>))"

subsection \<open>The file system and the driver\<close>

text \<open>
  The file system is outside the program. Its answer to each call is a parameter: the
  exception \<open>mkdir\<close> or \<open>rename\<close> raises, if any. The calls that succeeded are
  recorded in a log, which every function that touches the file system takes and returns.
\<close>

datatype fs_op = Mkdir path | Rename path path

record filesystem =
  mkdir_raises :: "path \<Rightarrow> error option"
  rename_raises :: "path \<Rightarrow> path \<Rightarrow> error option"

definition os_mkdir :: "filesystem \<Rightarrow> path \<Rightarrow> fs_op list \<Rightarrow> (error + unit) \<times> fs_op list" where
  "os_mkdir fs p log =
     (case mkdir_raises fs p of Some e \<Rightarrow> (Inl e, log) | None \<Rightarrow> (Inr (), log @ [Mkdir p]))"

definition os_rename :: "filesystem \<Rightarrow> path \<Rightarrow> path \<Rightarrow> fs_op list \<Rightarrow> (error + unit) \<times> fs_op list" where
  "os_rename fs p q log =
     (case rename_raises fs p q of Some e \<Rightarrow> (Inl e, log) | None \<Rightarrow> (Inr (), log @ [Rename p q]))"

definition create_new_filepath :: "path \<Rightarrow> SearchResult \<Rightarrow> error + path" where
  "create_new_filepath fp result =
     (let original_ext = suffix fp;
          new_fn = make_filename result
      in with_name fp (new_fn @ original_ext))"

definition move_to_folder ::
  "filesystem \<Rightarrow> path \<Rightarrow> bool \<Rightarrow> fs_op list \<Rightarrow> (error + path option) \<times> fs_op list"
where
  "move_to_folder fs fp dry_run log =
     (let folder_name = stem fp in
      if name (parent fp) \<noteq> folder_name then
        (let new_path = joinpath (joinpath (parent fp) folder_name) (name fp) in
         if \<not> dry_run then
           (case os_mkdir fs (parent new_path) log of
              (Inl e, log1) \<Rightarrow> (Inl e, log1)
            | (Inr _, log1) \<Rightarrow>
                (case os_rename fs fp new_path log1 of
                   (Inl e, log2) \<Rightarrow> (Inl e, log2)
                 | (Inr _, log2) \<Rightarrow> (Inr (Some new_path), log2)))
         else (Inr (Some new_path), log))
      else (Inr None, log))"

record run_state =
  num_changed :: nat
  num_files_moved :: nat
  console :: "string list"
  fs_log :: "fs_op list"

text \<open>
  The body of the inner \<open>for\<close> loop of \<open>loop_path\<close>, for the path \<open>fp\<close> of the file
  named \<open>file\<close>. \<open>Inl\<close> is an exception that leaves \<open>loop_path\<close>; only
  \<open>PermissionError\<close> raised by the renaming or the move that follows it is caught.
\<close>

definition process_file ::
  "filesystem \<Rightarrow> (string \<Rightarrow> SearchResult list) \<Rightarrow> debugger \<Rightarrow> bool \<Rightarrow> bool \<Rightarrow> path \<Rightarrow> string
     \<Rightarrow> run_state \<Rightarrow> error + run_state"
where
  "process_file fs tmdb pdb confirm dry_run fp file st =
     (if lower (suffix fp) \<notin> VIDEO_EXT then Inr st
      else if fullmatch RE_GOOD_FN (stem fp) then
        (case move_to_folder fs fp dry_run (fs_log st) of
           (Inl e, log1) \<Rightarrow> Inl e
         | (Inr new_folder, log1) \<Rightarrow>
             Inr (st\<lparr>num_files_moved :=
                        (if new_folder \<noteq> None then num_files_moved st + 1 else num_files_moved st),
                      fs_log := log1\<rparr>))
      else
        (let query = get_search_term_from_fn (stem fp) in
         case search tmdb query (name fp) of
           None \<Rightarrow> Inr st
         | Some results \<Rightarrow>
             (case ask_user pdb results file confirm (console st) of
                Inl e \<Rightarrow> Inl e
              | Inr (selection, rest) \<Rightarrow>
                  (case create_new_filepath fp selection of
                     Inl e \<Rightarrow> Inl e
                   | Inr new_fp \<Rightarrow>
                       (let st1 = st\<lparr>num_changed := num_changed st + 1, console := rest\<rparr> in
                        if \<not> dry_run then
                          (case os_rename fs fp new_fp (fs_log st1) of
                             (Inl e, log1) \<Rightarrow>
                               if e = PermissionError then Inr (st1\<lparr>fs_log := log1\<rparr>) else Inl e
                           | (Inr _, log1) \<Rightarrow>
                               (case move_to_folder fs new_fp False log1 of
                                  (Inl e, log2) \<Rightarrow>
                                    if e = PermissionError then Inr (st1\<lparr>fs_log := log2\<rparr>)
                                    else Inl e
                                | (Inr _, log2) \<Rightarrow> Inr (st1\<lparr>fs_log := log2\<rparr>)))
                        else Inr st1)))))"

fun loop_files ::
  "filesystem \<Rightarrow> (string \<Rightarrow> SearchResult list) \<Rightarrow> debugger \<Rightarrow> bool \<Rightarrow> bool
     \<Rightarrow> (path \<times> string) list \<Rightarrow> run_state \<Rightarrow> error + run_state"
where
  "loop_files fs tmdb pdb confirm dry_run [] st = Inr st"
| "loop_files fs tmdb pdb confirm dry_run ((fp, file) # rest) st =
     (case process_file fs tmdb pdb confirm dry_run fp file st of
        Inl e \<Rightarrow> Inl e
      | Inr st1 \<Rightarrow> loop_files fs tmdb pdb confirm dry_run rest st1)"

text \<open>
  \<open>loop_path\<close>: \<open>walk\<close> is what \<open>os.walk(path)\<close> yields, the directories with the names
  of their files. The two counters of the final state are the numbers the function logs
  at its end.
\<close>

definition loop_path ::
  "filesystem \<Rightarrow> (string \<Rightarrow> SearchResult list) \<Rightarrow> debugger \<Rightarrow> (string \<times> string list) list \<Rightarrow> bool
     \<Rightarrow> bool \<Rightarrow> string list \<Rightarrow> error + run_state"
where
  "loop_path fs tmdb pdb walk confirm dry_run lines =
     loop_files fs tmdb pdb confirm dry_run
       (concat (map (\<lambda>(root, files). map (\<lambda>file. (joinpath (Path root) file, file)) (sort files)) walk))
       \<lparr>num_changed = 0, num_files_moved = 0, console = lines, fs_log = []\<rparr>"

declare str_nat.simps [simp del]

section \<open>Patterns and their languages\<close>

lemma conc_iff: "w \<in> conc A B \<longleftrightarrow> (\<exists>u v. w = u @ v \<and> u \<in> A \<and> v \<in> B)"
  by (auto simp: conc_def)

lemma Nil_in_conc: "[] \<in> conc A B \<longleftrightarrow> [] \<in> A \<and> [] \<in> B"
  by (auto simp: conc_def)

lemma Cons_in_conc:
  "a # w \<in> conc A B \<longleftrightarrow> (\<exists>u v. w = u @ v \<and> a # u \<in> A \<and> v \<in> B) \<or> ([] \<in> A \<and> a # w \<in> B)"
proof
  assume "a # w \<in> conc A B"
  then obtain u v where uv: "a # w = u @ v" "u \<in> A" "v \<in> B"
    by (auto simp: conc_def)
  show "(\<exists>u v. w = u @ v \<and> a # u \<in> A \<and> v \<in> B) \<or> ([] \<in> A \<and> a # w \<in> B)"
  proof (cases u)
    case Nil
    with uv show ?thesis by simp
  next
    case (Cons b u')
    with uv have "w = u' @ v" "a # u' \<in> A" by auto
    with uv show ?thesis by blast
  qed
next
  assume "(\<exists>u v. w = u @ v \<and> a # u \<in> A \<and> v \<in> B) \<or> ([] \<in> A \<and> a # w \<in> B)"
  then show "a # w \<in> conc A B"
  proof
    assume "\<exists>u v. w = u @ v \<and> a # u \<in> A \<and> v \<in> B"
    then obtain u v where "w = u @ v" "a # u \<in> A" "v \<in> B" by blast
    then have "a # w = (a # u) @ v" by simp
    with \<open>a # u \<in> A\<close> \<open>v \<in> B\<close> show ?thesis unfolding conc_def by blast
  next
    assume "[] \<in> A \<and> a # w \<in> B"
    then have "a # w = [] @ (a # w)" "[] \<in> A" "a # w \<in> B" by auto
    then show ?thesis unfolding conc_def by blast
  qed
qed

lemma star_Cons_split:
  assumes "x \<in> star A" "x = a # w"
  shows "\<exists>u v. w = u @ v \<and> a # u \<in> A \<and> v \<in> star A"
  using assms
proof (induction arbitrary: a w rule: star.induct)
  case star_nil
  then show ?case by simp
next
  case (star_app u v)
  show ?case
  proof (cases u)
    case Nil
    with star_app show ?thesis by simp
  next
    case (Cons b u')
    with star_app.prems have "w = u' @ v" "b = a" by auto
    with Cons star_app.hyps show ?thesis by blast
  qed
qed

lemma Cons_in_star:
  "a # w \<in> star A \<longleftrightarrow> (\<exists>u v. w = u @ v \<and> a # u \<in> A \<and> v \<in> star A)"
proof
  assume "a # w \<in> star A"
  then show "\<exists>u v. w = u @ v \<and> a # u \<in> A \<and> v \<in> star A"
    using star_Cons_split by blast
next
  assume "\<exists>u v. w = u @ v \<and> a # u \<in> A \<and> v \<in> star A"
  then obtain u v where "w = u @ v" "a # u \<in> A" "v \<in> star A" by blast
  then show "a # w \<in> star A"
    using star_app [of "a # u" A v] by simp
qed

lemma nullable_lang: "nullable r \<longleftrightarrow> [] \<in> lang r"
  by (induction r) (auto simp: Nil_in_conc star_nil)

lemma lang_deriv: "w \<in> lang (deriv a r) \<longleftrightarrow> a # w \<in> lang r"
proof (induction r arbitrary: w)
  case (Cat r s)
  have "a # w \<in> lang (Cat r s) \<longleftrightarrow>
      (\<exists>u v. w = u @ v \<and> a # u \<in> lang r \<and> v \<in> lang s) \<or> ([] \<in> lang r \<and> a # w \<in> lang s)"
    by (simp add: Cons_in_conc)
  moreover have "w \<in> lang (deriv a (Cat r s)) \<longleftrightarrow>
      (\<exists>u v. w = u @ v \<and> u \<in> lang (deriv a r) \<and> v \<in> lang s) \<or> (nullable r \<and> w \<in> lang (deriv a s))"
    by (auto simp: conc_iff)
  ultimately show ?case
    using Cat by (simp add: nullable_lang)
next
  case (Star r)
  have "w \<in> lang (deriv a (Star r)) \<longleftrightarrow>
      (\<exists>u v. w = u @ v \<and> u \<in> lang (deriv a r) \<and> v \<in> star (lang r))"
    by (simp add: conc_iff)
  then show ?case
    using Star by (simp add: Cons_in_star)
qed auto

lemma fullmatch_lang: "fullmatch r w \<longleftrightarrow> w \<in> lang r"
  by (induction w arbitrary: r) (simp_all add: nullable_lang lang_deriv)

lemma star_chars: "star {[c] | c. P c} = {w. \<forall>c \<in> set w. P c}"
proof (intro set_eqI iffI)
  fix w assume "w \<in> star {[c] | c. P c}"
  then show "w \<in> {w. \<forall>c \<in> set w. P c}"
    by (induction rule: star.induct) auto
next
  fix w assume "w \<in> {w. \<forall>c \<in> set w. P c}"
  then have "\<forall>c \<in> set w. P c" by simp
  then show "w \<in> star {[c] | c. P c}"
  proof (induction w)
    case Nil
    show ?case by (rule star_nil)
  next
    case (Cons a w)
    then have "[a] \<in> {[c] | c. P c}" "w \<in> star {[c] | c. P c}" by auto
    then have "[a] @ w \<in> star {[c] | c. P c}" by (rule star_app)
    then show ?case by simp
  qed
qed

lemma lang_seq_Nil: "lang (seq []) = {[]}"
  by (simp add: seq_def)

lemma lang_seq_Cons: "lang (seq (r # rs)) = conc (lang r) (lang (seq rs))"
  by (simp add: seq_def)

lemma lang_str: "lang (str s) = {s}"
  by (induction s) (auto simp: str_def seq_def conc_def)

lemma lang_rep_chars:
  assumes "lang r = {[c] | c. P c}"
  shows "lang (rep n r) = {w. length w = n \<and> (\<forall>c \<in> set w. P c)}"
proof (induction n)
  case 0
  show ?case by auto
next
  case (Suc n)
  show ?case
  proof (intro set_eqI iffI)
    fix w assume "w \<in> lang (rep (Suc n) r)"
    then show "w \<in> {w. length w = Suc n \<and> (\<forall>c \<in> set w. P c)}"
      using Suc assms by (auto simp: conc_iff)
  next
    fix w assume "w \<in> {w. length w = Suc n \<and> (\<forall>c \<in> set w. P c)}"
    then obtain a v where "w = a # v" "P a" "length v = n" "\<forall>c \<in> set v. P c"
      by (cases w) auto
    then show "w \<in> lang (rep (Suc n) r)"
      using Suc assms by (auto simp: Cons_in_conc)
  qed
qed

lemma lang_many1_chars:
  assumes "lang r = {[c] | c. P c}"
  shows "lang (many1 r) = {w. w \<noteq> [] \<and> (\<forall>c \<in> set w. P c)}"
proof (intro set_eqI iffI)
  fix w assume "w \<in> lang (many1 r)"
  then show "w \<in> {w. w \<noteq> [] \<and> (\<forall>c \<in> set w. P c)}"
    using assms by (auto simp: many1_def conc_iff star_chars)
next
  fix w assume "w \<in> {w. w \<noteq> [] \<and> (\<forall>c \<in> set w. P c)}"
  then obtain a v where "w = a # v" "P a" "\<forall>c \<in> set v. P c"
    by (cases w) auto
  then show "w \<in> lang (many1 r)"
    using assms by (auto simp: many1_def Cons_in_conc star_chars)
qed

lemma concI: "u \<in> A \<Longrightarrow> v \<in> B \<Longrightarrow> u @ v \<in> conc A B"
  by (auto simp: conc_def)

lemma concE: "w \<in> conc A B \<Longrightarrow> (\<And>u v. w = u @ v \<Longrightarrow> u \<in> A \<Longrightarrow> v \<in> B \<Longrightarrow> Q) \<Longrightarrow> Q"
  by (auto simp: conc_def)

lemma lang_many1_Dot: "lang (many1 Dot) = {w. w \<noteq> [] \<and> CHR 0x0A \<notin> set w}"
  using lang_many1_chars [of Dot "\<lambda>c. c \<noteq> CHR 0x0A"] by auto

lemma lang_Star_Dot: "lang (Star Dot) = {w. CHR 0x0A \<notin> set w}"
  using star_chars [of "\<lambda>c. c \<noteq> CHR 0x0A"] by auto

lemma lang_many1_Digit: "lang (many1 Digit) = {w. w \<noteq> [] \<and> (\<forall>c \<in> set w. isdigit c)}"
  using lang_many1_chars [of Digit isdigit] by simp

lemma lang_rep_Digit: "lang (rep n Digit) = {w. length w = n \<and> (\<forall>c \<in> set w. isdigit c)}"
  using lang_rep_chars [of Digit isdigit] by simp

lemma RE_GOOD_FN_unfold:
  "lang RE_GOOD_FN =
     conc (lang (many1 Dot)) (conc {'' (''} (conc (lang (rep 4 Digit)) (conc {'') {t''}
       (conc (lang (Class ''mv'')) (conc {''db-''} (conc (lang (many1 Digit)) {''}''}))))))"
  by (simp add: RE_GOOD_FN_def lang_seq_Cons lang_seq_Nil lang_str conc_def)

lemma RE_GOOD_FN_lang:
  "s \<in> lang RE_GOOD_FN \<longleftrightarrow>
   (\<exists>t y x d. s = t @ '' ('' @ y @ '') {t'' @ [x] @ ''db-'' @ d @ ''}'' \<and>
      t \<noteq> [] \<and> CHR 0x0A \<notin> set t \<and> length y = 4 \<and> (\<forall>c \<in> set y. isdigit c) \<and>
      (x = CHR ''m'' \<or> x = CHR ''v'') \<and> d \<noteq> [] \<and> (\<forall>c \<in> set d. isdigit c))"
proof
  assume "s \<in> lang RE_GOOD_FN"
  then obtain t y x d where
    s: "s = t @ '' ('' @ y @ '') {t'' @ x @ ''db-'' @ d @ ''}''" and
    m: "t \<in> lang (many1 Dot)" "y \<in> lang (rep 4 Digit)" "x \<in> lang (Class ''mv'')"
    "d \<in> lang (many1 Digit)"
    unfolding RE_GOOD_FN_unfold by (elim concE) auto
  from m(3) obtain c where c: "x = [c]" "c = CHR ''m'' \<or> c = CHR ''v''"
    by auto
  have "s = t @ '' ('' @ y @ '') {t'' @ [c] @ ''db-'' @ d @ ''}'' \<and>
      t \<noteq> [] \<and> CHR 0x0A \<notin> set t \<and> length y = 4 \<and> (\<forall>c \<in> set y. isdigit c) \<and>
      (c = CHR ''m'' \<or> c = CHR ''v'') \<and> d \<noteq> [] \<and> (\<forall>c \<in> set d. isdigit c)"
    using s m c unfolding lang_many1_Dot lang_many1_Digit lang_rep_Digit by simp
  then show "\<exists>t y x d. s = t @ '' ('' @ y @ '') {t'' @ [x] @ ''db-'' @ d @ ''}'' \<and>
      t \<noteq> [] \<and> CHR 0x0A \<notin> set t \<and> length y = 4 \<and> (\<forall>c \<in> set y. isdigit c) \<and>
      (x = CHR ''m'' \<or> x = CHR ''v'') \<and> d \<noteq> [] \<and> (\<forall>c \<in> set d. isdigit c)"
    by blast
next
  assume "\<exists>t y x d. s = t @ '' ('' @ y @ '') {t'' @ [x] @ ''db-'' @ d @ ''}'' \<and>
      t \<noteq> [] \<and> CHR 0x0A \<notin> set t \<and> length y = 4 \<and> (\<forall>c \<in> set y. isdigit c) \<and>
      (x = CHR ''m'' \<or> x = CHR ''v'') \<and> d \<noteq> [] \<and> (\<forall>c \<in> set d. isdigit c)"
  then obtain t y x d where s: "s = t @ '' ('' @ y @ '') {t'' @ [x] @ ''db-'' @ d @ ''}''"
    and m: "t \<in> lang (many1 Dot)" "y \<in> lang (rep 4 Digit)" "[x] \<in> lang (Class ''mv'')"
      "d \<in> lang (many1 Digit)"
    unfolding lang_many1_Dot lang_many1_Digit lang_rep_Digit by auto
  show "s \<in> lang RE_GOOD_FN"
    unfolding RE_GOOD_FN_unfold s
    by (intro concI m) simp_all
qed

section \<open>The canonical name\<close>

text \<open>
  C7: \<open>make_filename\<close> deletes the characters of the illegal set from the title and
  changes nothing else in it, puts \<open>FIXME\<close> for a cleaned title that is empty, and
  returns the cleaned title, the year in parentheses and the identifier in braces after
  \<open>tmdb-\<close>. The title \<open>?\<close> with year 2031 and identifier 123 gives
  \<open>FIXME (2031) {tmdb-123}\<close>.
\<close>

theorem make_filename_shape:
  "make_filename c =
     (let cleaned = filter (\<lambda>x. x \<notin> set [CHR ''<'', CHR ''>'', CHR '':'', CHR 0x22, CHR ''/'', CHR 0x5C,
                                        CHR ''|'', CHR ''?'', CHR ''*'']) (title c)
      in (if cleaned = [] then ''FIXME'' else cleaned) @
         '' ('' @ str_int (year (release c)) @ '') {tmdb-'' @ str_int (ident c) @ ''}'')
   \<and> make_filename \<lparr>title = ''?'', ident = 123, release = \<lparr>year = 2031, month = 3, day = 3\<rparr>\<rparr>
       = ''FIXME (2031) {tmdb-123}''"
proof
  show "make_filename c =
     (let cleaned = filter (\<lambda>x. x \<notin> set [CHR ''<'', CHR ''>'', CHR '':'', CHR 0x22, CHR ''/'', CHR 0x5C,
                                        CHR ''|'', CHR ''?'', CHR ''*'']) (title c)
      in (if cleaned = [] then ''FIXME'' else cleaned) @
         '' ('' @ str_int (year (release c)) @ '') {tmdb-'' @ str_int (ident c) @ ''}'')"
    by (simp add: make_filename_def INVALID_FILENAME_CHARS_def Let_def)
  show "make_filename \<lparr>title = ''?'', ident = 123, release = \<lparr>year = 2031, month = 3, day = 3\<rparr>\<rparr>
       = ''FIXME (2031) {tmdb-123}''"
    by code_simp
qed

theorem make_filename_shape_witness:
  "make_filename \<lparr>title = ''Guess Who?'', ident = 123, release = \<lparr>year = 2031, month = 3, day = 3\<rparr>\<rparr>
     = ''Guess Who (2031) {tmdb-123}''"
proof -
  have a: "str_int 2031 = ''2031''" by code_simp
  have b: "str_int 123 = ''123''" by code_simp
  show ?thesis
    using make_filename_shape
      [of "\<lparr>title = ''Guess Who?'', ident = 123, release = \<lparr>year = 2031, month = 3, day = 3\<rparr>\<rparr>"]
    by (simp add: a b)
qed

section \<open>Recognising the canonical name\<close>

lemma looks_canonical_iff:
  "fullmatch RE_GOOD_FN s \<longleftrightarrow>
   (\<exists>t y x d. s = t @ '' ('' @ y @ '') {t'' @ [x] @ ''db-'' @ d @ ''}'' \<and>
      t \<noteq> [] \<and> CHR 0x0A \<notin> set t \<and> length y = 4 \<and> (\<forall>c \<in> set y. isdigit c) \<and>
      (x = CHR ''m'' \<or> x = CHR ''v'') \<and> d \<noteq> [] \<and> (\<forall>c \<in> set d. isdigit c))"
  by (simp only: fullmatch_lang RE_GOOD_FN_lang)

lemma digit_run_unique:
  assumes "\<forall>c \<in> set d. P c" "\<forall>c \<in> set e. P c" "\<not> P a" "\<not> P b"
    and eq: "u @ a # d = v @ b # e"
  shows "u = v \<and> a = b \<and> d = e"
proof -
  have "takeWhile P (rev d @ a # rev u) = rev d @ takeWhile P (a # rev u)"
    by (rule takeWhile_append2) (use assms(1) in auto)
  then have "takeWhile P (rev (u @ a # d)) = rev d"
    using assms(3) by simp
  moreover have "takeWhile P (rev e @ b # rev v) = rev e @ takeWhile P (b # rev v)"
    by (rule takeWhile_append2) (use assms(2) in auto)
  then have "takeWhile P (rev (v @ b # e)) = rev e"
    using assms(4) by simp
  ultimately have "d = e"
    using eq by simp
  with eq show ?thesis by simp
qed

lemma not_isdigit_punct [simp]:
  "\<not> isdigit CHR ''-''" "\<not> isdigit CHR ''(''" "\<not> isdigit CHR ''[''" "\<not> isdigit CHR ''b''"
  by (simp_all add: isdigit_def)

lemma isdigit_digit_char: "d < 10 \<Longrightarrow> isdigit (digit_char d)"
proof -
  assume "d < 10"
  then have "d \<in> set [0..<10]" by simp
  moreover have "\<forall>d \<in> set [0..<10]. isdigit (digit_char d)" by code_simp
  ultimately show ?thesis by blast
qed

lemma str_nat_digits: "\<forall>c \<in> set (str_nat n). isdigit c"
proof (induction n rule: str_nat.induct)
  case (1 n)
  show ?case
  proof (cases "n < 10")
    case True
    then show ?thesis
      by (subst str_nat.simps) (simp add: isdigit_digit_char)
  next
    case False
    then show ?thesis
      using 1 by (subst str_nat.simps) (simp add: isdigit_digit_char)
  qed
qed

lemma str_nat_nonempty: "str_nat n \<noteq> []"
  by (subst str_nat.simps) simp

lemma length_str_nat_le: "length (str_nat n) \<le> Suc k \<longleftrightarrow> n < 10 ^ Suc k"
proof (induction k arbitrary: n)
  case 0
  show ?case
  proof (cases "n < 10")
    case True
    then show ?thesis by (subst str_nat.simps) simp
  next
    case False
    then have "length (str_nat n) = Suc (length (str_nat (n div 10)))"
      by (subst str_nat.simps) simp
    moreover have "length (str_nat (n div 10)) > 0"
      using str_nat_nonempty by blast
    ultimately show ?thesis using False by simp
  qed
next
  case (Suc k)
  show ?case
  proof (cases "n < 10")
    case True
    have "(10::nat) \<le> 10 ^ Suc (Suc k)" by simp
    with True have "n < 10 ^ Suc (Suc k)" by linarith
    with True show ?thesis by (subst str_nat.simps) simp
  next
    case False
    then have "length (str_nat n) = Suc (length (str_nat (n div 10)))"
      by (subst str_nat.simps) simp
    moreover have "n div 10 < 10 ^ Suc k \<longleftrightarrow> n < 10 ^ Suc (Suc k)"
      by (simp add: div_less_iff_less_mult mult.commute)
    ultimately show ?thesis using Suc [of "n div 10"] by simp
  qed
qed

lemma length_str_nat_4: "length (str_nat n) = 4 \<longleftrightarrow> 1000 \<le> n \<and> n \<le> 9999"
proof -
  have a: "length (str_nat n) \<le> 4 \<longleftrightarrow> n < 10000"
    using length_str_nat_le [of n 3] by simp
  have b: "length (str_nat n) \<le> 3 \<longleftrightarrow> n < 1000"
    using length_str_nat_le [of n 2] by simp
  show ?thesis using a b by linarith
qed

lemma str_int_nonneg: "0 \<le> i \<Longrightarrow> str_int i = str_nat (nat i)"
  by (simp add: str_int_def)

lemma str_int_neg: "i < 0 \<Longrightarrow> str_int i = CHR ''-'' # str_nat (nat (- i))"
  by (simp add: str_int_def)

text \<open>\<open>str\<close> writes the decimal numeral that \<open>int\<close> reads back.\<close>

lemma digit_val_digit_char: "d < 10 \<Longrightarrow> digit_val (digit_char d) = d"
proof -
  assume "d < 10"
  then have "d \<in> set [0..<10]" by simp
  moreover have "\<forall>d \<in> set [0..<10]. digit_val (digit_char d) = d" by code_simp
  ultimately show ?thesis by blast
qed

lemma parse_digits_snoc:
  "\<forall>c \<in> set ds. isdigit c \<Longrightarrow> isdigit d \<Longrightarrow>
     parse_digits acc (ds @ [d]) = map_option (\<lambda>m. 10 * m + digit_val d) (parse_digits acc ds)"
  by (induction ds arbitrary: acc) simp_all

lemma parse_digits_str_nat: "parse_digits 0 (str_nat n) = Some n"
proof (induction n rule: str_nat.induct)
  case (1 n)
  show ?case
  proof (cases "n < 10")
    case True
    then show ?thesis
      by (subst str_nat.simps) (simp add: isdigit_digit_char digit_val_digit_char)
  next
    case False
    then have "str_nat n = str_nat (n div 10) @ [digit_char (n mod 10)]"
      by (subst str_nat.simps) simp
    then show ?thesis
      using 1 False parse_digits_snoc [of "str_nat (n div 10)" "digit_char (n mod 10)" 0]
        str_nat_digits [of "n div 10"]
      by (simp add: isdigit_digit_char digit_val_digit_char)
  qed
qed

lemma parse_nat_str_nat: "parse_nat (str_nat n) = Some n"
proof -
  obtain c cs where s: "str_nat n = c # cs"
    using str_nat_nonempty [of n] by (cases "str_nat n") auto
  then have "isdigit c" using str_nat_digits [of n] by simp
  then have "parse_nat (c # cs) = parse_digits 0 (c # cs)" by simp
  then show ?thesis using parse_digits_str_nat [of n] s by simp
qed

lemma isdigit_not_space: "isdigit c \<Longrightarrow> \<not> int_space c"
  by (auto simp: isdigit_def int_space_def)

lemma digits_not_padded:
  assumes "ds \<noteq> []" "\<forall>c \<in> set ds. isdigit c" "\<not> int_space a"
  shows "rev (dropWhile int_space (rev (dropWhile int_space (a # ds)))) = a # ds"
proof -
  have "\<not> int_space (last ds)"
    using assms(1,2) isdigit_not_space by simp
  then have "dropWhile int_space (rev (a # ds)) = rev (a # ds)"
    using assms(1) by (cases ds rule: rev_cases) simp_all
  then show ?thesis using assms(3) by simp
qed

lemma py_int_str_int: "py_int (str_int i) = Some i"
proof (cases "i < 0")
  case True
  have "\<not> int_space CHR ''-''" by (simp add: int_space_def)
  then have "rev (dropWhile int_space (rev (dropWhile int_space (CHR ''-'' # str_nat (nat (- i)))))) =
      CHR ''-'' # str_nat (nat (- i))"
    using digits_not_padded [OF str_nat_nonempty] str_nat_digits by blast
  then show ?thesis
    using True by (simp add: py_int_def str_int_neg parse_nat_str_nat)
next
  case False
  obtain c cs where s: "str_nat (nat i) = c # cs"
    using str_nat_nonempty [of "nat i"] by (cases "str_nat (nat i)") auto
  have d: "isdigit c" "\<forall>x \<in> set cs. isdigit x"
    using str_nat_digits [of "nat i"] s by simp_all
  have pad: "rev (dropWhile int_space (rev (dropWhile int_space (c # cs)))) = c # cs"
  proof (cases "cs = []")
    case True
    then show ?thesis using d(1) isdigit_not_space by simp
  next
    case False
    then show ?thesis using digits_not_padded [OF False d(2)] d(1) isdigit_not_space by blast
  qed
  have "c \<noteq> CHR ''-''" "c \<noteq> CHR ''+''"
    using d(1) by (auto simp: isdigit_def)
  then show ?thesis
    using False pad parse_nat_str_nat [of "nat i"] s
    by (simp add: py_int_def str_int_nonneg)
qed

lemma newline_legal: "CHR 0x0A \<notin> INVALID_FILENAME_CHARS"
  by (simp add: INVALID_FILENAME_CHARS_def)

lemma make_filename_unfold:
  "make_filename c =
     (if filter (\<lambda>x. x \<notin> INVALID_FILENAME_CHARS) (title c) = [] then ''FIXME''
      else filter (\<lambda>x. x \<notin> INVALID_FILENAME_CHARS) (title c)) @
     '' ('' @ str_int (year (release c)) @ '') {tmdb-'' @ str_int (ident c) @ ''}''"
  by (simp add: make_filename_def Let_def)

lemma clean_title_newline:
  "CHR 0x0A \<in> set (if filter (\<lambda>x. x \<notin> INVALID_FILENAME_CHARS) t = [] then ''FIXME''
      else filter (\<lambda>x. x \<notin> INVALID_FILENAME_CHARS) t) \<longleftrightarrow> CHR 0x0A \<in> set t"
proof (cases "CHR 0x0A \<in> set t")
  case True
  then have in_f: "CHR 0x0A \<in> set (filter (\<lambda>x. x \<notin> INVALID_FILENAME_CHARS) t)"
    using newline_legal by simp
  then have "filter (\<lambda>x. x \<notin> INVALID_FILENAME_CHARS) t \<noteq> []"
    by (metis empty_iff empty_set)
  then show ?thesis using True in_f by simp
next
  case False
  then show ?thesis by auto
qed

lemma canonical_parts:
  assumes m: "fullmatch RE_GOOD_FN (ct @ '' ('' @ Y @ '') {tmdb-'' @ D @ ''}'')"
    and Y: "Y = str_int yr" and D: "D = str_int i"
  shows "0 \<le> i \<and> 0 \<le> yr \<and> length Y = 4 \<and> CHR 0x0A \<notin> set ct"
proof -
  from m obtain t y x d where
    eq: "ct @ '' ('' @ Y @ '') {tmdb-'' @ D @ ''}'' = t @ '' ('' @ y @ '') {t'' @ [x] @ ''db-'' @ d @ ''}''"
    and t: "t \<noteq> []" "CHR 0x0A \<notin> set t" and y: "length y = 4" "\<forall>c \<in> set y. isdigit c"
    and d: "d \<noteq> []" "\<forall>c \<in> set d. isdigit c"
    unfolding looks_canonical_iff by blast
  have i: "0 \<le> i"
  proof (rule ccontr)
    assume "\<not> 0 \<le> i"
    then have D': "D = CHR ''-'' # str_nat (nat (- i))"
      using D by (simp add: str_int_neg)
    have "(ct @ '' ('' @ Y @ '') {tmdb-'') @ CHR ''-'' # str_nat (nat (- i)) =
          (t @ '' ('' @ y @ '') {t'' @ [x] @ ''db'') @ CHR ''-'' # d"
      using eq D' by simp
    then have "ct @ '' ('' @ Y @ '') {tmdb-'' = t @ '' ('' @ y @ '') {t'' @ [x] @ ''db''"
      using digit_run_unique [of "str_nat (nat (- i))" isdigit d "CHR ''-''" "CHR ''-''"
          "ct @ '' ('' @ Y @ '') {tmdb-''" "t @ '' ('' @ y @ '') {t'' @ [x] @ ''db''"]
        str_nat_digits d(2) by simp
    then have "last (ct @ '' ('' @ Y @ '') {tmdb-'') = last (t @ '' ('' @ y @ '') {t'' @ [x] @ ''db'')"
      by simp
    then show False by simp
  qed
  then have D': "D = str_nat (nat i)"
    using D by (simp add: str_int_nonneg)
  have "(ct @ '' ('' @ Y @ '') {tmdb'') @ CHR ''-'' # str_nat (nat i) =
        (t @ '' ('' @ y @ '') {t'' @ [x] @ ''db'') @ CHR ''-'' # d"
    using eq D' by simp
  then have "ct @ '' ('' @ Y @ '') {tmdb'' = t @ '' ('' @ y @ '') {t'' @ [x] @ ''db''"
    using digit_run_unique [of "str_nat (nat i)" isdigit d "CHR ''-''" "CHR ''-''"
        "ct @ '' ('' @ Y @ '') {tmdb''" "t @ '' ('' @ y @ '') {t'' @ [x] @ ''db''"]
      str_nat_digits d(2) by simp
  then have "(ct @ '' ('' @ Y) @ '') {tmdb'' = (t @ '' ('' @ y) @ ('') {t'' @ [x] @ ''db'')"
    by simp
  then have eq2: "ct @ '' ('' @ Y = t @ '' ('' @ y"
    by (subst (asm) append_eq_append_conv) simp_all
  have yr: "0 \<le> yr"
  proof (rule ccontr)
    assume "\<not> 0 \<le> yr"
    then have Y': "Y = CHR ''-'' # str_nat (nat (- yr))"
      using Y by (simp add: str_int_neg)
    have "(ct @ '' ('') @ CHR ''-'' # str_nat (nat (- yr)) = (t @ '' '') @ CHR ''('' # y"
      using eq2 Y' by simp
    then have "CHR ''-'' = CHR ''(''"
      using digit_run_unique [of "str_nat (nat (- yr))" isdigit y "CHR ''-''" "CHR ''(''"
          "ct @ '' (''" "t @ '' ''"] str_nat_digits y(2) by simp
    then show False by simp
  qed
  then have Y': "Y = str_nat (nat yr)"
    using Y by (simp add: str_int_nonneg)
  have "(ct @ '' '') @ CHR ''('' # str_nat (nat yr) = (t @ '' '') @ CHR ''('' # y"
    using eq2 Y' by simp
  then have "ct @ '' '' = t @ '' '' \<and> str_nat (nat yr) = y"
    using digit_run_unique [of "str_nat (nat yr)" isdigit y "CHR ''(''" "CHR ''(''"
        "ct @ '' ''" "t @ '' ''"] str_nat_digits y(2) by simp
  then have "ct = t" "Y = y"
    using Y' by simp_all
  with i yr t y show ?thesis by simp
qed

text \<open>
  C1 (amended): the stem produced by \<open>make_filename\<close> satisfies \<open>RE_GOOD_FN\<close> exactly
  when the release year has four digits (1000 to 9999), the identifier is not negative
  and the title has no line break; for every such candidate the round trip holds.
\<close>

theorem make_filename_looks_canonical:
  "fullmatch RE_GOOD_FN (make_filename c) \<longleftrightarrow>
     1000 \<le> year (release c) \<and> year (release c) \<le> 9999 \<and> 0 \<le> ident c \<and>
     CHR 0x0A \<notin> set (title c)"
proof
  assume m: "fullmatch RE_GOOD_FN (make_filename c)"
  define ct where "ct = (if filter (\<lambda>x. x \<notin> INVALID_FILENAME_CHARS) (title c) = [] then ''FIXME''
      else filter (\<lambda>x. x \<notin> INVALID_FILENAME_CHARS) (title c))"
  have "fullmatch RE_GOOD_FN
      (ct @ '' ('' @ str_int (year (release c)) @ '') {tmdb-'' @ str_int (ident c) @ ''}'')"
    using m unfolding make_filename_unfold ct_def .
  then have p: "0 \<le> ident c" "0 \<le> year (release c)" "length (str_int (year (release c))) = 4"
    "CHR 0x0A \<notin> set ct"
    using canonical_parts [of ct "str_int (year (release c))" "str_int (ident c)"
        "year (release c)" "ident c"] by simp_all
  from p(2,3) have "1000 \<le> nat (year (release c)) \<and> nat (year (release c)) \<le> 9999"
    by (simp add: str_int_nonneg length_str_nat_4)
  moreover have "CHR 0x0A \<notin> set (title c)"
    using p(4) clean_title_newline [of "title c"] unfolding ct_def by simp
  ultimately
  show "1000 \<le> year (release c) \<and> year (release c) \<le> 9999 \<and> 0 \<le> ident c \<and>
     CHR 0x0A \<notin> set (title c)"
    using p(1) by linarith
next
  assume a: "1000 \<le> year (release c) \<and> year (release c) \<le> 9999 \<and> 0 \<le> ident c \<and>
     CHR 0x0A \<notin> set (title c)"
  define ct where "ct = (if filter (\<lambda>x. x \<notin> INVALID_FILENAME_CHARS) (title c) = [] then ''FIXME''
      else filter (\<lambda>x. x \<notin> INVALID_FILENAME_CHARS) (title c))"
  have ct: "ct \<noteq> []" "CHR 0x0A \<notin> set ct"
    using a clean_title_newline [of "title c"] unfolding ct_def by auto
  have Y: "str_int (year (release c)) = str_nat (nat (year (release c)))"
    using a by (simp add: str_int_nonneg)
  have D: "str_int (ident c) = str_nat (nat (ident c))"
    using a by (simp add: str_int_nonneg)
  have "1000 \<le> nat (year (release c)) \<and> nat (year (release c)) \<le> 9999"
    using a by linarith
  then have len: "length (str_nat (nat (year (release c)))) = 4"
    by (simp only: length_str_nat_4)
  have "make_filename c = ct @ '' ('' @ str_nat (nat (year (release c))) @ '') {t'' @ [CHR ''m''] @
      ''db-'' @ str_nat (nat (ident c)) @ ''}''"
    unfolding make_filename_unfold ct_def Y D by simp
  then show "fullmatch RE_GOOD_FN (make_filename c)"
    unfolding looks_canonical_iff
    using ct len str_nat_digits str_nat_nonempty by blast
qed

theorem make_filename_looks_canonical_witness:
  "fullmatch RE_GOOD_FN
     (make_filename \<lparr>title = ''Guess Who?'', ident = 123, release = \<lparr>year = 2031, month = 3, day = 3\<rparr>\<rparr>)"
  using make_filename_looks_canonical
    [of "\<lparr>title = ''Guess Who?'', ident = 123, release = \<lparr>year = 2031, month = 3, day = 3\<rparr>\<rparr>"]
  by simp

theorem make_filename_short_year_counterexample:
  "\<not> fullmatch RE_GOOD_FN
     (make_filename \<lparr>title = ''foo'', ident = 123, release = \<lparr>year = 999, month = 3, day = 3\<rparr>\<rparr>)"
  by code_simp

text \<open>
  C2 (amended): \<open>RE_GOOD_FN\<close> matches exactly the strings made of a non-empty text
  without line break, a blank, four digits in parentheses, a blank and, in braces,
  \<open>tmdb-\<close> or \<open>tvdb-\<close> followed by one or more digits. A stem whose year stands in
  square brackets before \<open>{tmdb-<digits>}\<close> is not matched.
\<close>

theorem looks_canonical_shape:
  "(fullmatch RE_GOOD_FN s \<longleftrightarrow>
     (\<exists>t y x d. s = t @ '' ('' @ y @ '') {t'' @ [x] @ ''db-'' @ d @ ''}'' \<and>
        t \<noteq> [] \<and> CHR 0x0A \<notin> set t \<and> length y = 4 \<and> (\<forall>c \<in> set y. isdigit c) \<and>
        (x = CHR ''m'' \<or> x = CHR ''v'') \<and> d \<noteq> [] \<and> (\<forall>c \<in> set d. isdigit c)))
   \<and> ((\<forall>c \<in> set e. isdigit c) \<longrightarrow>
        \<not> fullmatch RE_GOOD_FN (u @ '' ['' @ z @ ''] {tmdb-'' @ e @ ''}''))"
proof (intro conjI impI)
  show "fullmatch RE_GOOD_FN s \<longleftrightarrow>
     (\<exists>t y x d. s = t @ '' ('' @ y @ '') {t'' @ [x] @ ''db-'' @ d @ ''}'' \<and>
        t \<noteq> [] \<and> CHR 0x0A \<notin> set t \<and> length y = 4 \<and> (\<forall>c \<in> set y. isdigit c) \<and>
        (x = CHR ''m'' \<or> x = CHR ''v'') \<and> d \<noteq> [] \<and> (\<forall>c \<in> set d. isdigit c))"
    by (rule looks_canonical_iff)
next
  assume e: "\<forall>c \<in> set e. isdigit c"
  show "\<not> fullmatch RE_GOOD_FN (u @ '' ['' @ z @ ''] {tmdb-'' @ e @ ''}'')"
  proof
    assume "fullmatch RE_GOOD_FN (u @ '' ['' @ z @ ''] {tmdb-'' @ e @ ''}'')"
    then obtain t y x d where
      eq: "u @ '' ['' @ z @ ''] {tmdb-'' @ e @ ''}'' = t @ '' ('' @ y @ '') {t'' @ [x] @ ''db-'' @ d @ ''}''"
      and d: "\<forall>c \<in> set d. isdigit c"
      unfolding looks_canonical_iff by blast
    have "(u @ '' ['' @ z @ ''] {tmdb'') @ CHR ''-'' # e =
          (t @ '' ('' @ y @ '') {t'' @ [x] @ ''db'') @ CHR ''-'' # d"
      using eq by simp
    then have "u @ '' ['' @ z @ ''] {tmdb'' = t @ '' ('' @ y @ '') {t'' @ [x] @ ''db''"
      using digit_run_unique [of e isdigit d "CHR ''-''" "CHR ''-''"
          "u @ '' ['' @ z @ ''] {tmdb''" "t @ '' ('' @ y @ '') {t'' @ [x] @ ''db''"] e d
      by simp
    then have "(u @ '' ['' @ z) @ ''] {tmdb'' = (t @ '' ('' @ y) @ ('') {t'' @ [x] @ ''db'')"
      by simp
    then have "''] {tmdb'' = '') {t'' @ [x] @ ''db''"
      by (subst (asm) append_eq_append_conv) simp_all
    then show False by simp
  qed
qed

theorem looks_canonical_shape_witness:
  "\<not> fullmatch RE_GOOD_FN ''a [1234] {tmdb-123}''"
proof -
  have d: "\<forall>c \<in> set ''123''. isdigit c" by code_simp
  have "\<not> fullmatch RE_GOOD_FN (''a'' @ '' ['' @ ''1234'' @ ''] {tmdb-'' @ ''123'' @ ''}'')"
    using looks_canonical_shape [of "[]" "''123''" "''a''" "''1234''"] d by blast
  then show ?thesis by simp
qed

theorem looks_canonical_tvdb_counterexample:
  "fullmatch RE_GOOD_FN ''a (1234) {tvdb-123}'' \<and> CHR ''m'' \<notin> set ''a (1234) {tvdb-123}''"
  by code_simp




section \<open>The search term\<close>

lemma bracketed_lang:
  "w \<in> lang (seq [Lit a, rep 4 Digit, Lit b]) \<longleftrightarrow>
     (\<exists>ds. w = a # ds @ [b] \<and> length ds = 4 \<and> (\<forall>c \<in> set ds. isdigit c))"
  by (auto simp: lang_seq_Cons lang_seq_Nil conc_iff lang_rep_Digit)

lemma year_re_lang:
  "w \<in> lang year_re \<longleftrightarrow>
     (\<exists>ds. length ds = 4 \<and> (\<forall>c \<in> set ds. isdigit c) \<and>
        (w = CHR ''['' # ds @ '']'' \<or> w = CHR ''('' # ds @ '')''))"
  unfolding year_re_def lang.simps Un_iff bracketed_lang by auto

lemma not_isdigit_open [simp]: "\<not> isdigit CHR ''[''" "\<not> isdigit CHR ''(''"
  by (simp_all add: isdigit_def)

lemma year_word:
  assumes "fullmatch year_re w"
  shows "length w = 6" and "w ! 0 = CHR ''['' \<or> w ! 0 = CHR ''(''"
    and "\<And>j. 1 \<le> j \<Longrightarrow> j \<le> 5 \<Longrightarrow> w ! j \<noteq> CHR ''['' \<and> w ! j \<noteq> CHR ''(''"
proof -
  from assms obtain ds where ds: "length ds = 4" "\<forall>c \<in> set ds. isdigit c"
    and w: "w = CHR ''['' # ds @ '']'' \<or> w = CHR ''('' # ds @ '')''"
    unfolding fullmatch_lang year_re_lang by blast
  from w ds show "length w = 6" by auto
  from w show "w ! 0 = CHR ''['' \<or> w ! 0 = CHR ''(''" by auto
  fix j :: nat assume j: "1 \<le> j" "j \<le> 5"
  show "w ! j \<noteq> CHR ''['' \<and> w ! j \<noteq> CHR ''(''"
  proof (cases "j = 5")
    case True
    then have "w ! j = CHR '']'' \<or> w ! j = CHR '')''"
      using w ds(1) by (auto simp: nth_Cons' nth_append)
    then show ?thesis by auto
  next
    case False
    with j have "j - 1 < length ds" using ds(1) by simp
    then have "w ! j = ds ! (j - 1)" "ds ! (j - 1) \<in> set ds"
      using w j by (auto simp: nth_Cons' nth_append)
    then have "isdigit (w ! j)" using ds(2) by simp
    then show ?thesis by auto
  qed
qed

lemma match_end_Some:
  "match_end r s = Some k \<Longrightarrow> k \<le> length s \<and> fullmatch r (take k s)"
proof (induction s arbitrary: r k)
  case Nil
  then show ?case by (simp split: if_splits)
next
  case (Cons a s)
  show ?case
  proof (cases "nullable r")
    case True
    with Cons.prems show ?thesis by simp
  next
    case False
    with Cons.prems obtain j where "match_end (deriv a r) s = Some j" "k = Suc j"
      by auto
    with Cons.IH [of "deriv a r" j] show ?thesis by simp
  qed
qed

lemma match_end_None:
  "match_end r s = None \<Longrightarrow> k \<le> length s \<Longrightarrow> \<not> fullmatch r (take k s)"
proof (induction s arbitrary: r k)
  case Nil
  then show ?case by (simp split: if_splits)
next
  case (Cons a s)
  from Cons.prems(1) have n: "\<not> nullable r" "match_end (deriv a r) s = None"
    by (auto split: if_splits)
  show ?case
  proof (cases k)
    case 0
    with n show ?thesis by simp
  next
    case (Suc j)
    with Cons.prems(2) have "j \<le> length s" by simp
    with Cons.IH [OF n(2)] Suc show ?thesis by simp
  qed
qed


lemma re_sub_empty_no_match: "\<not> re_search r s \<Longrightarrow> re_sub_empty r s = s"
  by (induction s) (auto split: if_splits option.splits)

lemma year_match_at_head:
  assumes y: "fullmatch year_re (a # y)"
  shows "match_end (deriv a year_re) (y @ rest) = Some 5"
proof -
  have len: "length y = 5" using year_word(1) [OF y] by simp
  then have "fullmatch (deriv a year_re) (take 5 (y @ rest))" using y by simp
  moreover have "5 \<le> length (y @ rest)" using len by simp
  ultimately obtain k where k: "match_end (deriv a year_re) (y @ rest) = Some k"
    using match_end_None [of "deriv a year_re" "y @ rest" 5] by fastforce
  from match_end_Some [OF k] have "fullmatch year_re (a # take k (y @ rest))" "k \<le> length (y @ rest)"
    by simp_all
  then have "k = 5" using year_word(1) [of "a # take k (y @ rest)"] by simp
  with k show ?thesis by simp
qed

lemma no_year_across:
  assumes ns: "match_end year_re (c # s) = None" and y: "fullmatch year_re y"
  shows "match_end (deriv c year_re) (s @ y @ rest) = None"
proof (rule ccontr)
  assume "match_end (deriv c year_re) (s @ y @ rest) \<noteq> None"
  then obtain k where k: "match_end (deriv c year_re) (s @ y @ rest) = Some k" by blast
  define w where "w = c # take k (s @ y @ rest)"
  from match_end_Some [OF k] have w: "fullmatch year_re w" and kl: "k \<le> length (s @ y @ rest)"
    by (simp_all add: w_def)
  from year_word(1) [OF w] kl have k5: "k = 5" by (simp add: w_def)
  show False
  proof (cases "5 \<le> length s")
    case True
    then have "w = take 6 (c # s)" by (simp add: w_def k5)
    with w True show False
      using match_end_None [OF ns, of 6] by simp
  next
    case False
    then have l: "length s < 5" by simp
    have "y \<noteq> []" using year_word(1) [OF y] by auto
    then have "w ! Suc (length s) = y ! 0"
      using l by (simp add: w_def k5 nth_append)
    moreover have "w ! Suc (length s) \<noteq> CHR ''['' \<and> w ! Suc (length s) \<noteq> CHR ''(''"
      using year_word(3) [OF w, of "Suc (length s)"] l by simp
    ultimately show False using year_word(2) [OF y] by simp
  qed
qed

lemma re_sub_empty_segment:
  assumes "\<not> re_search year_re s" "fullmatch year_re y"
  shows "re_sub_empty year_re (s @ y @ rest) = s @ re_sub_empty year_re rest"
  using assms(1)
proof (induction s)
  case Nil
  from assms(2) obtain a y' where y: "y = a # y'"
    using year_word(1) [OF assms(2)] by (cases y) auto
  have "length y' = 5" using year_word(1) [OF assms(2)] y by simp
  then show ?case
    using year_match_at_head [of a y' rest] assms(2) y by simp
next
  case (Cons c s)
  then have n: "match_end year_re (c # s) = None" "\<not> re_search year_re s"
    by auto
  from no_year_across [OF n(1) assms(2)] Cons.IH [OF n(2)] show ?case by simp
qed

lemma re_sub_empty_segments:
  assumes "\<not> re_search year_re s0"
    and "\<forall>(y, s) \<in> set yss. fullmatch year_re y \<and> \<not> re_search year_re s"
  shows "re_sub_empty year_re (s0 @ concat (map (\<lambda>(y, s). y @ s) yss)) = s0 @ concat (map snd yss)"
  using assms
proof (induction yss arbitrary: s0)
  case Nil
  then show ?case by (simp add: re_sub_empty_no_match)
next
  case (Cons p yss)
  obtain y s where p: "p = (y, s)" by (cases p)
  with Cons.prems have y: "fullmatch year_re y" "\<not> re_search year_re s"
    and rest: "\<forall>(y, s) \<in> set yss. fullmatch year_re y \<and> \<not> re_search year_re s"
    by auto
  have "re_sub_empty year_re (s0 @ y @ (s @ concat (map (\<lambda>(y, s). y @ s) yss))) =
        s0 @ re_sub_empty year_re (s @ concat (map (\<lambda>(y, s). y @ s) yss))"
    using re_sub_empty_segment [OF Cons.prems(1) y(1)] .
  also have "\<dots> = s0 @ s @ concat (map snd yss)"
    using Cons.IH [OF y(2) rest] by simp
  finally show ?case by (simp add: p)
qed

text \<open>
  C3 (amended): the first stage of the search-term pipeline removes every substring
  matching a year of four digits in square brackets or in parentheses, not only the
  first, and trims the white space around the result: a string made of texts that
  contain no such year, with a bracketed year between each two of them, becomes the
  trimmed concatenation of the texts.
\<close>

theorem strip_year_removes_every_year:
  assumes "\<not> re_search year_re s0"
    and "\<forall>(y, s) \<in> set yss. fullmatch year_re y \<and> \<not> re_search year_re s"
  shows "strip_year (s0 @ concat (map (\<lambda>(y, s). y @ s) yss)) = strip (s0 @ concat (map snd yss))"
  unfolding strip_year_def using re_sub_empty_segments [OF assms] by simp

theorem strip_year_removes_every_year_witness:
  "strip_year ''a (1999) b [2000]'' = ''a  b''"
proof -
  have a: "\<not> re_search year_re ''a ''" by code_simp
  have b: "\<forall>(y, s) \<in> set [(''(1999)'', '' b ''), (''[2000]'', [])].
      fullmatch year_re y \<and> \<not> re_search year_re s"
    by code_simp
  have c: "strip (''a '' @ concat (map snd [(''(1999)'', '' b ''), (''[2000]'', [])])) = ''a  b''"
    by code_simp
  show ?thesis
    using strip_year_removes_every_year [OF a b] c by simp
qed

theorem strip_year_second_year_counterexample:
  "strip_year ''x (1999) [2000]'' = ''x''"
  by code_simp

lemma patt_group1_iff:
  "fullmatch patt_group1 w \<longleftrightarrow> (\<exists>a. w = a @ ''-'' \<and> CHR 0x0A \<notin> set a)"
  unfolding fullmatch_lang patt_group1_def
  by (auto simp: lang_seq_Cons lang_seq_Nil conc_iff lang_Star_Dot [simplified])

lemma patt_group2_iff:
  "fullmatch patt_group2 w \<longleftrightarrow> (\<exists>a b. w = a @ ''-'' @ b \<and> CHR 0x0A \<notin> set a \<and> CHR 0x0A \<notin> set b)"
  unfolding fullmatch_lang patt_group2_def
  by (auto simp: lang_seq_Cons lang_seq_Nil conc_iff lang_Star_Dot [simplified])

lemma patt_group2_set:
  "fullmatch patt_group2 w \<longleftrightarrow> CHR ''-'' \<in> set w \<and> CHR 0x0A \<notin> set w"
proof
  assume "fullmatch patt_group2 w"
  then show "CHR ''-'' \<in> set w \<and> CHR 0x0A \<notin> set w"
    unfolding patt_group2_iff by auto
next
  assume a: "CHR ''-'' \<in> set w \<and> CHR 0x0A \<notin> set w"
  then obtain u v where "w = u @ CHR ''-'' # v"
    by (meson split_list)
  with a show "fullmatch patt_group2 w"
    unfolding patt_group2_iff by auto
qed

lemma patt_split_hyphens:
  assumes "fullmatch patt_group1 (take k s)" "fullmatch patt_group2 (drop k s)"
  shows "2 \<le> length (filter (\<lambda>c. c = CHR ''-'') s) \<and> CHR 0x0A \<notin> set s"
proof -
  from assms(1) have a: "CHR ''-'' \<in> set (take k s)" "CHR 0x0A \<notin> set (take k s)"
    unfolding patt_group1_iff by auto
  from assms(2) have b: "CHR ''-'' \<in> set (drop k s)" "CHR 0x0A \<notin> set (drop k s)"
    unfolding patt_group2_set by auto
  have "filter (\<lambda>c. c = CHR ''-'') (take k s) \<noteq> []" "filter (\<lambda>c. c = CHR ''-'') (drop k s) \<noteq> []"
    using a(1) b(1) by (simp_all add: filter_empty_conv)
  then have "1 \<le> length (filter (\<lambda>c. c = CHR ''-'') (take k s))"
    "1 \<le> length (filter (\<lambda>c. c = CHR ''-'') (drop k s))"
    by (simp_all add: Suc_le_eq)
  moreover have "filter (\<lambda>c. c = CHR ''-'') s =
      filter (\<lambda>c. c = CHR ''-'') (take k s) @ filter (\<lambda>c. c = CHR ''-'') (drop k s)"
    by (metis append_take_drop_id filter_append)
  ultimately have "2 \<le> length (filter (\<lambda>c. c = CHR ''-'') s)" by simp
  moreover have "set s = set (take k s) \<union> set (drop k s)"
    by (metis append_take_drop_id set_append)
  ultimately show ?thesis using a(2) b(2) by simp
qed

lemma lazy_split_first_separator:
  assumes p: "CHR ''-'' \<notin> set p" and r: "CHR ''-'' \<in> set r" and n: "CHR 0x0A \<notin> set (p @ r)"
  shows "lazy_split patt_group1 patt_group2 (p @ '' - '' @ r) = Some (length p + 2)"
proof -
  let ?s = "p @ '' - '' @ r"
  let ?P = "\<lambda>k. fullmatch patt_group1 (take k ?s) \<and> fullmatch patt_group2 (drop k ?s)"
  have t: "take (length p + 2) ?s = (p @ '' '') @ ''-''" by simp
  have d: "drop (length p + 2) ?s = CHR '' '' # r" by simp
  have here: "?P (length p + 2)"
    unfolding t d patt_group2_set using r n
    by (subst patt_group1_iff) auto
  have before: "\<not> ?P j" if "j < length p + 2" for j
  proof
    assume "?P j"
    then obtain a where a: "take j ?s = a @ ''-''"
      unfolding patt_group1_iff by blast
    have "CHR ''-'' \<in> set (a @ ''-'')" by simp
    then have "CHR ''-'' \<in> set (take j ?s)"
      by (simp only: a)
    moreover have "take j ((p @ '' '') @ (''- '' @ r)) = take j (p @ '' '')"
      using that by (subst take_append) simp
    then have "take j ?s = take j (p @ '' '')"
      by simp
    ultimately have "CHR ''-'' \<in> set (p @ '' '')"
      by (metis in_set_takeD)
    with p show False by simp
  qed
  have 1: "length p + 2 < length [0..<Suc (length ?s)]" by simp
  have nth: "[0..<Suc (length ?s)] ! j = j" if "j \<le> length p + 2" for j
    using that by (simp del: upt_Suc add: nth_upt)
  have 2: "?P ([0..<Suc (length ?s)] ! (length p + 2))"
    using here by (simp only: nth [of "length p + 2"] order_refl)
  have 3: "length p + 2 = [0..<Suc (length ?s)] ! (length p + 2)"
    by (simp only: nth [of "length p + 2"] order_refl)
  have 4: "\<forall>j<length p + 2. \<not> ?P ([0..<Suc (length ?s)] ! j)"
  proof (intro allI impI)
    fix j assume j: "j < length p + 2"
    then have e: "[0..<Suc (length ?s)] ! j = j" using nth [of j] by simp
    show "\<not> ?P ([0..<Suc (length ?s)] ! j)" unfolding e by (rule before [OF j])
  qed
  have "find ?P [0..<Suc (length ?s)] = Some (length p + 2)"
    unfolding find_Some_iff using 1 2 3 4 by blast
  then show ?thesis by (simp only: lazy_split_def)
qed

lemma strip_leading_blank: "strip (CHR '' '' # r) = strip r"
  by (simp add: strip_def lstrip_def isspace_def)

text \<open>
  C4 (amended): the strip-leading-info stage returns its input unchanged when the input
  has fewer than two hyphens or has a line break. For an input without line break whose
  first hyphen is the one of a separator \<open>" - "\<close>, the text before that separator is
  dropped, and the trimmed remainder returned, when at least one more hyphen, with or
  without blanks around it, occurs in the remainder.
\<close>

theorem strip_leading_info_cases:
  "(length (filter (\<lambda>c. c = CHR ''-'') data) < 2 \<or> CHR 0x0A \<in> set data \<longrightarrow>
      strip_leading_info data = data) \<and>
   (CHR ''-'' \<notin> set p \<and> CHR ''-'' \<in> set r \<and> CHR 0x0A \<notin> set (p @ r) \<longrightarrow>
      strip_leading_info (p @ '' - '' @ r) = strip r)"
proof (intro conjI impI)
  assume a: "length (filter (\<lambda>c. c = CHR ''-'') data) < 2 \<or> CHR 0x0A \<in> set data"
  have "\<not> (fullmatch patt_group1 (take k data) \<and> fullmatch patt_group2 (drop k data))" for k
    using patt_split_hyphens [of k data] a by auto
  then have "lazy_split patt_group1 patt_group2 data = None"
    by (simp only: lazy_split_def find_None_iff) simp
  then show "strip_leading_info data = data"
    by (simp add: strip_leading_info_def)
next
  assume "CHR ''-'' \<notin> set p \<and> CHR ''-'' \<in> set r \<and> CHR 0x0A \<notin> set (p @ r)"
  then have "lazy_split patt_group1 patt_group2 (p @ '' - '' @ r) = Some (length p + 2)"
    using lazy_split_first_separator by blast
  moreover have "drop (length p + 2) (p @ '' - '' @ r) = CHR '' '' # r"
    by simp
  ultimately show "strip_leading_info (p @ '' - '' @ r) = strip r"
    by (simp only: strip_leading_info_def option.case strip_leading_blank)
qed

theorem strip_leading_info_cases_witness:
  "strip_leading_info ''foo - bar'' = ''foo - bar'' \<and>
   strip_leading_info ''group - 11 - title'' = ''11 - title''"
proof -
  have a: "length (filter (\<lambda>c. c = CHR ''-'') ''foo - bar'') < 2 \<or> CHR 0x0A \<in> set ''foo - bar''"
    by simp
  have b: "CHR ''-'' \<notin> set ''group'' \<and> CHR ''-'' \<in> set ''11 - title'' \<and>
      CHR 0x0A \<notin> set (''group'' @ ''11 - title'')"
    by simp
  have c: "strip ''11 - title'' = ''11 - title''" by code_simp
  have d: "''group'' @ '' - '' @ ''11 - title'' = ''group - 11 - title''" by simp
  show ?thesis
    using strip_leading_info_cases [of "''foo - bar''" "''group''" "''11 - title''"] a b
    unfolding c d by blast
qed

theorem strip_leading_info_single_separator_counterexample:
  "strip_leading_info ''a - b-c'' = ''b-c'' \<and>
   \<not> fullmatch (seq [Star Dot, str '' - '', Star Dot, str '' - '', Star Dot]) ''a - b-c''"
  by code_simp






section \<open>The prompt and the driver\<close>







text \<open>The renaming branch of the loop body never changes the counter of moved files.\<close>

lemma process_file_rename_keeps_moved:
  assumes "\<not> fullmatch RE_GOOD_FN (stem fp)"
    and "process_file fs tmdb pdb confirm dry_run fp original_file st = Inr st'"
  shows "num_files_moved st' = num_files_moved st"
  using assms
  by (auto simp: process_file_def Let_def split: if_splits option.splits sum.splits prod.splits)

text \<open>
  C5: one video file \<open>/foo/bar/baz.avi\<close>, one search result. The file is renamed and
  then moved into its new folder (the log ends with the \<open>mkdir\<close> and the \<open>rename\<close>
  of \<open>move_to_folder\<close>), and the run ends with one file changed and no file moved: the
  renaming branch of \<open>loop_path\<close> drops the result of \<open>move_to_folder\<close>, which the
  branch for files that already look good counts.
\<close>

theorem loop_path_rename_move_not_counted:
  "loop_path \<lparr>mkdir_raises = (\<lambda>p. None), rename_raises = (\<lambda>p q. None)\<rparr>
     (\<lambda>q. [\<lparr>title = ''foo'', ident = 123, release = \<lparr>year = 2031, month = 3, day = 3\<rparr>\<rparr>])
     pdb [(''/foo/bar'', [''baz.avi''])] False False [] =
   Inr \<lparr>num_changed = 1, num_files_moved = 0, console = [],
        fs_log =
          [Rename (Path ''/foo/bar/baz.avi'') (Path ''/foo/bar/foo (2031) {tmdb-123}.avi''),
           Mkdir (Path ''/foo/bar/foo (2031) {tmdb-123}''),
           Rename (Path ''/foo/bar/foo (2031) {tmdb-123}.avi'')
             (Path ''/foo/bar/foo (2031) {tmdb-123}/foo (2031) {tmdb-123}.avi'')]\<rparr>"
  by code_simp

section \<open>Organising a file into its folder\<close>

lemma split_on_nonempty: "split_on sep s \<noteq> []"
  by (induction s) (auto split: list.splits)

lemma split_on_parts: "w \<in> set (split_on sep s) \<Longrightarrow> sep \<notin> set w"
proof (induction s arbitrary: w)
  case Nil
  then show ?case by simp
next
  case (Cons c s)
  show ?case
  proof (cases "c = sep")
    case True
    with Cons show ?thesis by auto
  next
    case False
    obtain x xs where x: "split_on sep s = x # xs"
      using split_on_nonempty [of sep s] by (cases "split_on sep s") auto
    with False Cons.prems have "w = c # x \<or> w \<in> set xs" by simp
    then show ?thesis
      using Cons.IH [of x] Cons.IH [of w] x False by auto
  qed
qed

lemma split_on_single: "sep \<notin> set s \<Longrightarrow> split_on sep s = [s]"
  by (induction s) auto

lemma Path_component:
  assumes "n \<noteq> []" "n \<noteq> ''.''" "CHR ''/'' \<notin> set n"
  shows "Path n = \<lparr>anchor = [], names = [n]\<rparr>"
proof -
  from assms(1,3) have "take 1 n \<noteq> ''/''" by (cases n) auto
  then show ?thesis
    using assms by (simp add: Path_def split_on_single)
qed

lemma Path_names:
  assumes "n \<in> set (names (Path s))"
  shows "n \<noteq> []" "n \<noteq> ''.''" "CHR ''/'' \<notin> set n"
  using assms split_on_parts [of n "CHR ''/''" s] by (auto simp: Path_def)

lemma stem_cases:
  "stem p = name p \<or> (\<exists>i. 0 < i \<and> i < length (name p) \<and> stem p = take i (name p))"
proof (cases "0 < rfind CHR ''.'' (name p) \<and> rfind CHR ''.'' (name p) < int (length (name p)) - 1")
  case True
  then have "0 < nat (rfind CHR ''.'' (name p)) \<and> nat (rfind CHR ''.'' (name p)) < length (name p) \<and>
      stem p = take (nat (rfind CHR ''.'' (name p))) (name p)"
    by (auto simp: stem_def Let_def)
  then show ?thesis by blast
next
  case False
  then show ?thesis by (auto simp: stem_def Let_def)
qed

lemma stem_component:
  assumes "name p \<noteq> []" "CHR ''/'' \<notin> set (name p)"
  shows "stem p \<noteq> []" "CHR ''/'' \<notin> set (stem p)"
proof -
  from stem_cases [of p] show "stem p \<noteq> []"
    using assms(1) by auto
  from stem_cases [of p] show "CHR ''/'' \<notin> set (stem p)"
    using assms(2) by (auto dest: in_set_takeD)
qed

lemma new_path_shape:
  assumes fp: "fp = Path s" and ne: "name (parent fp) \<noteq> stem fp" and dot: "stem fp \<noteq> ''.''"
  shows "joinpath (joinpath (parent fp) (stem fp)) (name fp) =
         fp\<lparr>names := butlast (names fp) @ [stem fp, name fp]\<rparr>"
proof -
  have nn: "names fp \<noteq> []"
  proof
    assume "names fp = []"
    then have "name (parent fp) = stem fp"
      by (simp add: name_def parent_def stem_def rfind_def Let_def)
    with ne show False by simp
  qed
  then have "name fp \<in> set (names (Path s))"
    using fp by (simp add: name_def)
  from Path_names [OF this] have n: "name fp \<noteq> []" "name fp \<noteq> ''.''" "CHR ''/'' \<notin> set (name fp)" .
  from stem_component [OF n(1) n(3)] have st: "stem fp \<noteq> []" "CHR ''/'' \<notin> set (stem fp)" .
  show ?thesis
    using Path_component [OF st(1) dot st(2)] Path_component [OF n]
    by (simp add: joinpath_def parent_def)
qed

text \<open>
  C8 (amended): \<open>move_to_folder\<close> does nothing and returns nothing for every path whose
  parent directory is named like the stem of the file. For every other path whose stem
  is not \<open>.\<close> it returns the path with the stem inserted as a directory before the file
  name (\<open>/foo/bar.avi\<close> gives \<open>/foo/bar/bar.avi\<close>), and applied to that path it does
  nothing.
\<close>

theorem move_to_folder_idempotent:
  "(name (parent (Path s)) = stem (Path s) \<longrightarrow>
      move_to_folder fs (Path s) dry_run log = (Inr None, log)) \<and>
   (name (parent (Path s)) \<noteq> stem (Path s) \<and> stem (Path s) \<noteq> ''.'' \<longrightarrow>
      (let new_path = (Path s)\<lparr>names := butlast (names (Path s)) @ [stem (Path s), name (Path s)]\<rparr>
       in move_to_folder fs (Path s) True log = (Inr (Some new_path), log) \<and>
          (\<forall>r l. move_to_folder fs (Path s) dry_run log = (Inr r, l) \<longrightarrow> r = Some new_path) \<and>
          move_to_folder fs new_path dry_run log' = (Inr None, log')))"
proof (intro conjI impI)
  assume "name (parent (Path s)) = stem (Path s)"
  then show "move_to_folder fs (Path s) dry_run log = (Inr None, log)"
    by (simp add: move_to_folder_def)
next
  assume a: "name (parent (Path s)) \<noteq> stem (Path s) \<and> stem (Path s) \<noteq> ''.''"
  define fp where "fp = Path s"
  define np where "np = fp\<lparr>names := butlast (names fp) @ [stem fp, name fp]\<rparr>"
  have j: "joinpath (joinpath (parent fp) (stem fp)) (name fp) = np"
    using new_path_shape [of fp s] a unfolding fp_def np_def by simp
  have ne: "name (parent fp) \<noteq> stem fp"
    using a by (simp add: fp_def)
  have dry: "move_to_folder fs fp True log = (Inr (Some np), log)"
    using ne j by (simp add: move_to_folder_def)
  have any: "r = Some np" if "move_to_folder fs fp dry_run log = (Inr r, l)" for r l
    using that ne j
    by (auto simp: move_to_folder_def os_mkdir_def os_rename_def
        split: if_splits option.splits)
  have "name np = name fp"
    by (simp add: np_def name_def)
  then have "stem np = stem fp"
    by (simp add: stem_def)
  moreover have "name (parent np) = stem fp"
    by (simp add: np_def name_def parent_def butlast_append)
  ultimately have again: "move_to_folder fs np dry_run log' = (Inr None, log')"
    by (simp add: move_to_folder_def)
  show "let new_path = (Path s)\<lparr>names := butlast (names (Path s)) @ [stem (Path s), name (Path s)]\<rparr>
       in move_to_folder fs (Path s) True log = (Inr (Some new_path), log) \<and>
          (\<forall>r l. move_to_folder fs (Path s) dry_run log = (Inr r, l) \<longrightarrow> r = Some new_path) \<and>
          move_to_folder fs new_path dry_run log' = (Inr None, log')"
    using dry any again unfolding Let_def np_def fp_def by blast
qed

theorem move_to_folder_idempotent_witness:
  "move_to_folder \<lparr>mkdir_raises = (\<lambda>p. None), rename_raises = (\<lambda>p q. None)\<rparr>
     (Path ''/foo/bar.avi'') True [] = (Inr (Some (Path ''/foo/bar/bar.avi'')), []) \<and>
   move_to_folder \<lparr>mkdir_raises = (\<lambda>p. None), rename_raises = (\<lambda>p q. None)\<rparr>
     (Path ''/foo/bar/bar.avi'') True [] = (Inr None, [])"
proof -
  have a: "name (parent (Path ''/foo/bar.avi'')) \<noteq> stem (Path ''/foo/bar.avi'') \<and>
      stem (Path ''/foo/bar.avi'') \<noteq> ''.''"
    by code_simp
  have b: "(Path ''/foo/bar.avi'')\<lparr>names := butlast (names (Path ''/foo/bar.avi'')) @
      [stem (Path ''/foo/bar.avi''), name (Path ''/foo/bar.avi'')]\<rparr> = Path ''/foo/bar/bar.avi''"
    by code_simp
  have c: "name (parent (Path ''/foo/bar/bar.avi'')) = stem (Path ''/foo/bar/bar.avi'')"
    by code_simp
  have 1: "move_to_folder \<lparr>mkdir_raises = (\<lambda>p. None), rename_raises = (\<lambda>p q. None)\<rparr>
     (Path ''/foo/bar.avi'') True [] = (Inr (Some (Path ''/foo/bar/bar.avi'')), [])"
    using move_to_folder_idempotent [of "''/foo/bar.avi''"
        "\<lparr>mkdir_raises = (\<lambda>p. None), rename_raises = (\<lambda>p q. None)\<rparr>" True "[]" "[]"] a
    unfolding Let_def b by blast
  have 2: "move_to_folder \<lparr>mkdir_raises = (\<lambda>p. None), rename_raises = (\<lambda>p q. None)\<rparr>
     (Path ''/foo/bar/bar.avi'') True [] = (Inr None, [])"
    using move_to_folder_idempotent [of "''/foo/bar/bar.avi''"
        "\<lparr>mkdir_raises = (\<lambda>p. None), rename_raises = (\<lambda>p q. None)\<rparr>" True "[]" "[]"] c
    by blast
  from 1 2 show ?thesis by blast
qed

theorem move_to_folder_dot_stem_counterexample:
  "move_to_folder \<lparr>mkdir_raises = (\<lambda>p. None), rename_raises = (\<lambda>p q. None)\<rparr>
     (Path ''/foo/..avi'') True [] = (Inr (Some (Path ''/foo/..avi'')), [])"
  by code_simp

end
